theory Spec2Isabelle
  imports Complex_Main "HOL-Library.Word"
begin

section \<open>ByteMap: the binary/pixel codec of bytemap.py\<close>

text \<open>
  The two source variants, \<^verbatim>\<open>bytemap.py\<close> (module-level functions, Tk front end) and
  \<^verbatim>\<open>bytemap_beta.py\<close> (the same functions as methods of \<^verbatim>\<open>ConversionWorker\<close>, Qt front
  end), contain the same codec line for line. The definitions below follow
  \<^verbatim>\<open>bytemap.py\<close>; line numbers refer to that file.
\<close>

subsection \<open>Data\<close>

text \<open>
  A Python \<^verbatim>\<open>bytes\<close> object is a sequence of integers in the range 0..255. A pixel is the
  4-tuple of Python integers built on line 41. Bit strings are Python \<^verbatim>\<open>str\<close> values
  made of the characters \<^verbatim>\<open>0\<close> and \<^verbatim>\<open>1\<close>.
\<close>

type_synonym byte = "8 word"
type_synonym pixel = "nat \<times> nat \<times> nat \<times> nat"

datatype error =
    ValueError        \<comment> \<open>\<^verbatim>\<open>int(s, 2)\<close> on a string that is not a binary literal\<close>
  | OverflowError     \<comment> \<open>\<^verbatim>\<open>int.to_bytes\<close>: the value does not fit the requested length\<close>
  | TypeError         \<comment> \<open>\<^verbatim>\<open>Image.putdata\<close>: more entries than the image has cells\<close>
  | ZstdError         \<comment> \<open>raised by the compression library\<close>

text \<open>An RGBA image of PIL: its size and its cells in row-major order, as \<^verbatim>\<open>getdata\<close> lists them.\<close>

record image =
  img_width :: nat
  img_height :: nat
  img_data :: "pixel list"

subsection \<open>The Python primitives the codec uses\<close>

definition bit_char :: "nat \<Rightarrow> char" where
  "bit_char d = (if d = 0 then CHR ''0'' else CHR ''1'')"

text \<open>The binary digits of a non-negative integer, most significant first (\<^verbatim>\<open>format(n, 'b')\<close>).\<close>

fun bin_digits :: "nat \<Rightarrow> string" where
  "bin_digits n = (if n < 2 then [bit_char n] else bin_digits (n div 2) @ [bit_char (n mod 2)])"

declare bin_digits.simps [simp del]

text \<open>
  \<^verbatim>\<open>format(n, '08b')\<close> and \<^verbatim>\<open>f'{n:08b}'\<close>: the binary digits, filled on the left with
  \<^verbatim>\<open>0\<close> up to a width of at least 8. A value of 256 or more yields more than 8 characters.
\<close>

definition format_08b :: "nat \<Rightarrow> string" where
  "format_08b n = replicate (8 - length (bin_digits n)) (CHR ''0'') @ bin_digits n"

fun is_bits :: "string \<Rightarrow> bool" where
  "is_bits [] = True"
| "is_bits (c # s) = ((c = CHR ''0'' \<or> c = CHR ''1'') \<and> is_bits s)"

definition bin_value :: "string \<Rightarrow> nat" where
  "bin_value s = foldl (\<lambda>acc c. 2 * acc + (if c = CHR ''1'' then 1 else 0)) 0 s"

text \<open>
  \<^verbatim>\<open>int(s, 2)\<close> on the strings this program builds: a non-empty run of \<^verbatim>\<open>0\<close> and
  \<^verbatim>\<open>1\<close> has the value of its digits, the empty string raises \<^verbatim>\<open>ValueError\<close>. Every
  string that reaches \<^verbatim>\<open>int\<close> in the codec is produced by \<^verbatim>\<open>format\<close> or by padding with
  \<^verbatim>\<open>0\<close>, and every statement below is about such strings. (Python also reads a sign, a
  \<^verbatim>\<open>0b\<close> prefix, underscores and surrounding blanks; the model rejects them, and
  nothing below depends on a string with one of them.)
\<close>

definition int_base2 :: "string \<Rightarrow> error + nat" where
  "int_base2 s = (if s \<noteq> [] \<and> is_bits s then Inr (bin_value s) else Inl ValueError)"

text \<open>The \<open>n\<close> big-endian bytes of \<open>v\<close>, and \<^verbatim>\<open>v.to_bytes(n, byteorder='big')\<close>.\<close>

fun be_bytes :: "nat \<Rightarrow> nat \<Rightarrow> byte list" where
  "be_bytes 0 v = []"
| "be_bytes (Suc n) v = be_bytes n (v div 256) @ [of_nat (v mod 256)]"

definition to_bytes_big :: "nat \<Rightarrow> nat \<Rightarrow> error + byte list" where
  "to_bytes_big v n = (if v < 256 ^ n then Inr (be_bytes n v) else Inl OverflowError)"

text \<open>
  The integer square root, \<open>floor (sqrt n)\<close>, computed two bits of \<open>n\<close> at a time.
\<close>

definition isqrt_step :: "nat \<Rightarrow> nat \<Rightarrow> nat" where
  "isqrt_step n r = (if (r + 1) * (r + 1) \<le> n then r + 1 else r)"

fun isqrt :: "nat \<Rightarrow> nat" where
  "isqrt n = (if n = 0 then 0 else isqrt_step n (2 * isqrt (n div 4)))"

declare isqrt.simps [simp del]

text \<open>
  \<^verbatim>\<open>int(pixel_count ** 0.5)\<close>. Python converts the count to a double, calls the
  \<^verbatim>\<open>pow\<close> of the C library, whose result lies within one unit in the last place of
  the root, and truncates. The value is not the same function of the count everywhere:
  \<^item> Below \<open>2 ^ 52\<close> the root of a count that is not a square lies at least
    \<open>2 ^ -27\<close> below the next integer, more than the distance between two doubles
    there, so the power never reaches that integer and the truncation is the integer
    square root.
  \<^item> From \<open>2 ^ 52\<close> on, a root just below an integer can be returned as that integer,
    and the truncation is then one more than the integer square root. CPython on x86-64
    with glibc gives \<^verbatim>\<open>int(4503599761588224 ** 0.5) == 67108865\<close>, the integer
    square root being 67108864. Whether this happens at a given count depends on the
    rounding inside the library, not on the program.
  The library's rounding is therefore a parameter of the model: \<open>rounds_up n\<close> says
  that the power of the count \<open>n\<close> reaches the next integer. It is consulted from
  \<open>2 ^ 52\<close> on only. (A Python string has fewer than \<open>2 ^ 63\<close> characters, so a
  pixel count is at most \<open>2 ^ 58\<close>, where doubles near the root are less than
  \<open>2 ^ -23\<close> apart.)
\<close>

type_synonym float_rounding = "nat \<Rightarrow> bool"

definition int_pow_half :: "float_rounding \<Rightarrow> nat \<Rightarrow> nat" where
  "int_pow_half rounds_up pixel_count =
     (if pixel_count < 2 ^ 52 then isqrt pixel_count
      else if rounds_up pixel_count then isqrt pixel_count + 1
      else isqrt pixel_count)"

text \<open>\<^verbatim>\<open>Image.new('RGBA', (width, height))\<close>: every cell is \<open>(0, 0, 0, 0)\<close>.\<close>

definition zero_pixel :: pixel where
  "zero_pixel = (0, 0, 0, 0)"

definition Image_new :: "nat \<Rightarrow> nat \<Rightarrow> image" where
  "Image_new w h = \<lparr>img_width = w, img_height = h, img_data = replicate (w * h) zero_pixel\<rparr>"

text \<open>
  \<^verbatim>\<open>img.putdata(pixels)\<close> overwrites the cells from the first one on and leaves the
  others as they are; PIL raises \<^verbatim>\<open>TypeError\<close> ("too many data entries") when the
  sequence is longer than the image.
\<close>

definition putdata :: "image \<Rightarrow> pixel list \<Rightarrow> error + image" where
  "putdata img pixels =
     (if length pixels > img_width img * img_height img then Inl TypeError
      else Inr (img\<lparr>img_data := pixels @ drop (length pixels) (img_data img)\<rparr>))"

subsection \<open>The packer and the unpacker (lines 30--62)\<close>

text \<open>Lines 36--41, the body of the loop: one chunk becomes one pixel.\<close>

definition chunk_pixel :: "string \<Rightarrow> error + pixel" where
  "chunk_pixel chunk =
     (case int_base2 (take 8 chunk) of Inl e \<Rightarrow> Inl e | Inr r \<Rightarrow>
      case int_base2 (take 8 (drop 8 chunk)) of Inl e \<Rightarrow> Inl e | Inr g \<Rightarrow>
      case int_base2 (take 8 (drop 16 chunk)) of Inl e \<Rightarrow> Inl e | Inr b \<Rightarrow>
      case int_base2 (take 8 (drop 24 chunk)) of Inl e \<Rightarrow> Inl e | Inr a \<Rightarrow>
      Inr (r, g, b, a))"

text \<open>
  Lines 35--41, \<^verbatim>\<open>for i in range(0, len(binary_data), 32)\<close>: the chunk at offset \<open>i\<close> is
  the first 32 characters of what is left after dropping \<open>i\<close>.
\<close>

fun chunk_pixels :: "string \<Rightarrow> error + pixel list" where
  "chunk_pixels binary_data =
     (if binary_data = [] then Inr []
      else case chunk_pixel (take 32 binary_data) of
             Inl e \<Rightarrow> Inl e
           | Inr p \<Rightarrow> (case chunk_pixels (drop 32 binary_data) of
                         Inl e \<Rightarrow> Inl e
                       | Inr pixels \<Rightarrow> Inr (p # pixels)))"

declare chunk_pixels.simps [simp del]

text \<open>Line 31 and line 32.\<close>

definition padding_length :: "string \<Rightarrow> nat" where
  "padding_length binary_data = (32 - length binary_data mod 32) mod 32"

definition padded :: "string \<Rightarrow> string" where
  "padded binary_data = binary_data @ replicate (padding_length binary_data) (CHR ''0'')"

definition binary_to_rgba_pixels :: "string \<Rightarrow> error + (pixel list \<times> nat)" where
  "binary_to_rgba_pixels binary_data =
     (case chunk_pixels (padded binary_data) of
        Inl e \<Rightarrow> Inl e
      | Inr pixels \<Rightarrow> Inr (pixels, padding_length binary_data))"

definition rgba_pixels_to_binary :: "pixel list \<Rightarrow> string" where
  "rgba_pixels_to_binary pixels =
     concat (map (\<lambda>(r, g, b, a). format_08b r @ format_08b g @ format_08b b @ format_08b a) pixels)"

definition create_image_from_binary :: "string \<Rightarrow> nat \<Rightarrow> nat \<Rightarrow> error + image" where
  "create_image_from_binary binary_data width height =
     (case binary_to_rgba_pixels binary_data of
        Inl e \<Rightarrow> Inl e
      | Inr (pixels, _) \<Rightarrow> putdata (Image_new width height) pixels)"

definition create_binary_from_image :: "image \<Rightarrow> string" where
  "create_binary_from_image img = rgba_pixels_to_binary (img_data img)"

subsection \<open>The two conversions (lines 121--209)\<close>

text \<open>
  The zstandard library is outside the repository: \<^verbatim>\<open>compress_data\<close> and
  \<^verbatim>\<open>decompress_data\<close> (lines 12--28) hand the bytes to it and re-raise what it raises.
  They are parameters of the conversions. The conversions are modelled from the bytes
  read from the selected file to the image handed to \<^verbatim>\<open>img.save\<close>, and from the image
  returned by \<^verbatim>\<open>Image.open\<close> to the bytes written; the PNG container keeps the size and
  every channel value. File dialogs, file names, the progress bar and the status text
  are left out.
\<close>

type_synonym compressor = "byte list \<Rightarrow> error + byte list"

text \<open>Line 148: \<^verbatim>\<open>''.join(format(byte, '08b') for byte in compressed_data)\<close>.\<close>

definition to_binary :: "byte list \<Rightarrow> string" where
  "to_binary compressed_data = concat (map (\<lambda>byte. format_08b (unat byte)) compressed_data)"

text \<open>Lines 151--152: the number of pixels, the width and the height.\<close>

definition layout :: "float_rounding \<Rightarrow> nat \<Rightarrow> nat \<times> nat \<times> nat" where
  "layout rounds_up bit_length =
     (let pixel_count = (bit_length + 31) div 32;
          width = int_pow_half rounds_up pixel_count + 1;
          height = width
      in (pixel_count, width, height))"

text \<open>
  The outcomes of \<^verbatim>\<open>convert_file_to_image\<close>: the return of line 145 after the
  information box, before any image exists; the exception handler of lines 172--174;
  and the image passed to \<^verbatim>\<open>img.save\<close> on line 161.
\<close>

datatype encode_outcome =
    NoBenefit
  | EncodeFailed error
  | ImageSaved image

definition convert_file_to_image ::
  "float_rounding \<Rightarrow> compressor \<Rightarrow> byte list \<Rightarrow> encode_outcome" where
  "convert_file_to_image rounds_up compress_data file_data =
     (let original_size = length file_data in
      case compress_data file_data of
        Inl e \<Rightarrow> EncodeFailed e
      | Inr compressed_data \<Rightarrow>
          (let compressed_size = length compressed_data in
           if compressed_size \<ge> original_size then NoBenefit
           else
             (let binary_data = to_binary compressed_data;
                  (pixel_count, width, height) = layout rounds_up (length binary_data)
              in case create_image_from_binary binary_data width height of
                   Inl e \<Rightarrow> EncodeFailed e
                 | Inr img \<Rightarrow> ImageSaved img)))"

text \<open>Line 193: \<^verbatim>\<open>int(binary_data, 2).to_bytes((len(binary_data) + 7) // 8, byteorder='big')\<close>.\<close>

definition binary_to_bytes :: "string \<Rightarrow> error + byte list" where
  "binary_to_bytes binary_data =
     (case int_base2 binary_data of
        Inl e \<Rightarrow> Inl e
      | Inr v \<Rightarrow> to_bytes_big v ((length binary_data + 7) div 8))"

text \<open>
  \<^verbatim>\<open>convert_image_to_file\<close>: \<open>Inl\<close> is the exception handler of lines 207--209,
  \<open>Inr\<close> carries the bytes written on line 203.
\<close>

definition convert_image_to_file :: "compressor \<Rightarrow> image \<Rightarrow> error + byte list" where
  "convert_image_to_file decompress_data img =
     (let binary_data = create_binary_from_image img in
      case binary_to_bytes binary_data of
        Inl e \<Rightarrow> Inl e
      | Inr byte_data \<Rightarrow> decompress_data byte_data)"

subsection \<open>Reference definitions for the statements\<close>

text \<open>
  The plain grouping of a bit string into bytes, eight characters per byte, the first
  character being the most significant bit.
\<close>

fun group8 :: "string \<Rightarrow> byte list" where
  "group8 s = (if s = [] then [] else of_nat (bin_value (take 8 s)) # group8 (drop 8 s))"

declare group8.simps [simp del]


text \<open>
  The pixel the specification assigns to the chunk number \<open>i\<close> of a bit string: the bits
  \<open>[0:8)\<close> of the chunk are R, \<open>[8:16)\<close> are G, \<open>[16:24)\<close> are B and \<open>[24:32)\<close>
  are A, each read as an unsigned binary number.
\<close>

definition spec_pixel_at :: "string \<Rightarrow> nat \<Rightarrow> pixel" where
  "spec_pixel_at bits i =
     (bin_value (take 8 (drop (32 * i) bits)),
      bin_value (take 8 (drop (32 * i + 8) bits)),
      bin_value (take 8 (drop (32 * i + 16) bits)),
      bin_value (take 8 (drop (32 * i + 24) bits)))"





text \<open>
  A one-run codec, used where a statement about the conversions is instantiated at a
  concrete input: a frame is a count and a byte, and the decompressor reads the frame
  at the start of its input and ignores what follows it.
\<close>

definition run_compress :: compressor where
  "run_compress data =
     (case data of
        [] \<Rightarrow> Inr [0, 0]
      | x # _ \<Rightarrow> if length data < 256 \<and> data = replicate (length data) x
                 then Inr [of_nat (length data), x] else Inl ZstdError)"

definition run_decompress :: compressor where
  "run_decompress frame =
     (case frame of
        n # x # _ \<Rightarrow> Inr (replicate (unat n) x)
      | _ \<Rightarrow> Inl ZstdError)"

section \<open>Bit strings and binary numerals\<close>

lemma is_bits_set: "is_bits s = (\<forall>c \<in> set s. c = CHR ''0'' \<or> c = CHR ''1'')"
  by (induction s) auto

lemma is_bits_append [simp]: "is_bits (s @ t) = (is_bits s \<and> is_bits t)"
  by (induction s) auto

lemma is_bits_replicate_zero [simp]: "is_bits (replicate k (CHR ''0''))"
  by (induction k) auto

lemma is_bits_take: "is_bits s \<Longrightarrow> is_bits (take k s)"
  by (auto simp: is_bits_set dest: in_set_takeD)

lemma is_bits_drop: "is_bits s \<Longrightarrow> is_bits (drop k s)"
  by (auto simp: is_bits_set dest: in_set_dropD)

lemma bin_value_Nil [simp]: "bin_value [] = 0"
  by (simp add: bin_value_def)

lemma bin_value_snoc:
  "bin_value (s @ [c]) = 2 * bin_value s + (if c = CHR ''1'' then 1 else 0)"
  by (simp add: bin_value_def)

lemma bin_value_append: "bin_value (s @ t) = bin_value s * 2 ^ length t + bin_value t"
proof (induction t rule: rev_induct)
  case Nil
  then show ?case by simp
next
  case (snoc c t)
  have "bin_value (s @ t @ [c]) = bin_value ((s @ t) @ [c])" by simp
  also have "\<dots> = 2 * bin_value (s @ t) + (if c = CHR ''1'' then 1 else 0)"
    by (rule bin_value_snoc)
  finally show ?case by (simp add: snoc.IH bin_value_snoc algebra_simps)
qed

lemma bin_value_lt: "bin_value s < 2 ^ length s"
proof (induction s rule: rev_induct)
  case Nil
  then show ?case by simp
next
  case (snoc c s)
  then show ?case by (simp add: bin_value_snoc)
qed

lemma bin_value_replicate_zero [simp]: "bin_value (replicate k (CHR ''0'')) = 0"
proof (induction k)
  case 0
  then show ?case by simp
next
  case (Suc k)
  have "replicate (Suc k) (CHR ''0'') = replicate k (CHR ''0'') @ [CHR ''0'']"
    by (simp add: replicate_append_same)
  with Suc show ?case by (simp only: bin_value_snoc) simp
qed

lemma bin_value_zeros_left [simp]: "bin_value (replicate k (CHR ''0'') @ s) = bin_value s"
  by (simp add: bin_value_append)

lemma bin_value_zeros_right: "bin_value (s @ replicate k (CHR ''0'')) = bin_value s * 2 ^ k"
  by (simp add: bin_value_append)

lemma is_bits_bin_digits [simp]: "is_bits (bin_digits n)"
proof (induction n rule: bin_digits.induct)
  case (1 n)
  then show ?case by (subst bin_digits.simps) (simp add: bit_char_def)
qed

lemma bin_value_bin_digits [simp]: "bin_value (bin_digits n) = n"
proof (induction n rule: bin_digits.induct)
  case (1 n)
  show ?case
  proof (cases "n < 2")
    case True
    then have "n = 0 \<or> n = 1" by auto
    then show ?thesis by (subst bin_digits.simps) (auto simp: bit_char_def bin_value_def)
  next
    case False
    with 1 have "bin_value (bin_digits (n div 2)) = n div 2" by simp
    moreover have "2 * (n div 2) + (if bit_char (n mod 2) = CHR ''1'' then 1 else 0) = n"
      by (simp add: bit_char_def) presburger
    ultimately show ?thesis using False
      by (subst bin_digits.simps) (simp only: bin_value_snoc if_False)
  qed
qed

lemma length_bin_digits: "0 < k \<Longrightarrow> n < 2 ^ k \<Longrightarrow> length (bin_digits n) \<le> k"
proof (induction n arbitrary: k rule: bin_digits.induct)
  case (1 n)
  show ?case
  proof (cases "n < 2")
    case True
    with 1 show ?thesis by (subst bin_digits.simps) simp
  next
    case False
    with "1.prems" obtain j where k: "k = Suc j" and j: "0 < j"
      by (cases k; cases "k - 1") auto
    from "1.prems" k have "n div 2 < 2 ^ j" by auto
    with "1.IH" False j have "length (bin_digits (n div 2)) \<le> j" by simp
    with False k show ?thesis by (subst bin_digits.simps) simp
  qed
qed

lemma length_format_08b: "n < 256 \<Longrightarrow> length (format_08b n) = 8"
  using length_bin_digits [of 8 n] by (simp add: format_08b_def)

lemma bin_value_format_08b [simp]: "bin_value (format_08b n) = n"
  by (simp add: format_08b_def)

lemma is_bits_format_08b [simp]: "is_bits (format_08b n)"
  by (simp add: format_08b_def)

lemma bin_value_inj:
  "is_bits s \<Longrightarrow> is_bits t \<Longrightarrow> length s = length t \<Longrightarrow> bin_value s = bin_value t \<Longrightarrow> s = t"
proof (induction s arbitrary: t rule: rev_induct)
  case Nil
  then show ?case by simp
next
  case (snoc c s)
  from snoc.prems obtain d t' where t: "t = t' @ [d]"
    by (cases t rule: rev_cases) auto
  from snoc.prems t have cd: "c = CHR ''0'' \<or> c = CHR ''1''" "d = CHR ''0'' \<or> d = CHR ''1''"
    by auto
  from snoc.prems t have eq: "2 * bin_value s + (if c = CHR ''1'' then 1 else 0) =
      2 * bin_value t' + (if d = CHR ''1'' then 1 else (0::nat))"
    by (simp add: bin_value_snoc)
  from eq cd have "c = d" by (auto split: if_splits) presburger+
  with eq have "bin_value s = bin_value t'" by simp
  with snoc.IH [of t'] snoc.prems t have "s = t'" by simp
  with \<open>c = d\<close> t show ?case by simp
qed

lemma format_08b_bin_value: "is_bits s \<Longrightarrow> length s = 8 \<Longrightarrow> format_08b (bin_value s) = s"
proof -
  assume s: "is_bits s" "length s = 8"
  have "bin_value s < 256" using bin_value_lt [of s] s by simp
  then have "length (format_08b (bin_value s)) = 8" by (rule length_format_08b)
  with s show ?thesis by (intro bin_value_inj) simp_all
qed


section \<open>The packer and the unpacker\<close>

lemma int_base2_bits: "is_bits s \<Longrightarrow> s \<noteq> [] \<Longrightarrow> int_base2 s = Inr (bin_value s)"
  by (simp add: int_base2_def)

lemma int_base2_octet:
  "is_bits c \<Longrightarrow> k + 8 \<le> length c \<Longrightarrow>
   int_base2 (take 8 (drop k c)) = Inr (bin_value (take 8 (drop k c)))"
  by (rule int_base2_bits) (auto simp: is_bits_take is_bits_drop)

lemma chunk_pixel_bits:
  assumes "is_bits s" and "32 \<le> length s"
  shows "chunk_pixel (take 32 s) = Inr (spec_pixel_at s 0)"
proof -
  let ?c = "take 32 s"
  have c: "is_bits ?c" "length ?c = 32" using assms by (simp_all add: is_bits_take)
  have r: "int_base2 (take 8 ?c) = Inr (bin_value (take 8 (drop (32 * 0) s)))"
    using int_base2_octet [of ?c 0] c by simp
  have g: "int_base2 (take 8 (drop 8 ?c)) = Inr (bin_value (take 8 (drop 8 s)))"
    using int_base2_octet [of ?c 8] c by (simp add: drop_take)
  have b: "int_base2 (take 8 (drop 16 ?c)) = Inr (bin_value (take 8 (drop 16 s)))"
    using int_base2_octet [of ?c 16] c by (simp add: drop_take)
  have a: "int_base2 (take 8 (drop 24 ?c)) = Inr (bin_value (take 8 (drop 24 s)))"
    using int_base2_octet [of ?c 24] c by (simp add: drop_take)
  show ?thesis unfolding chunk_pixel_def spec_pixel_at_def r g b a by simp
qed

lemma spec_pixel_at_drop: "spec_pixel_at (drop 32 s) i = spec_pixel_at s (Suc i)"
  by (simp add: spec_pixel_at_def add.commute add.left_commute)

lemma map_spec_pixel_at_Suc:
  "map (spec_pixel_at s) [0..<Suc n] = spec_pixel_at s 0 # map (spec_pixel_at (drop 32 s)) [0..<n]"
proof -
  have "[0..<Suc n] = 0 # map Suc [0..<n]"
    by (simp add: upt_conv_Cons map_Suc_upt del: upt_Suc)
  then show ?thesis by (simp add: spec_pixel_at_drop comp_def del: upt_Suc)
qed

lemma chunk_pixels_bits:
  "is_bits s \<Longrightarrow> length s = 32 * n \<Longrightarrow>
   chunk_pixels s = Inr (map (spec_pixel_at s) [0..<n])"
proof (induction n arbitrary: s)
  case 0
  then show ?case by (simp add: chunk_pixels.simps)
next
  case (Suc n)
  from Suc.prems have ne: "s \<noteq> []" and len: "32 \<le> length s" by auto
  from Suc.prems have "chunk_pixels (drop 32 s) = Inr (map (spec_pixel_at (drop 32 s)) [0..<n])"
    by (intro Suc.IH) (simp_all add: is_bits_drop)
  with ne chunk_pixel_bits [OF Suc.prems(1) len] show ?case
    by (subst chunk_pixels.simps) (simp add: map_spec_pixel_at_Suc del: upt_Suc)
qed

lemma octets_of_chunk:
  assumes "32 \<le> length s"
  shows "take 8 s @ take 8 (drop 8 s) @ take 8 (drop 16 s) @ take 8 (drop 24 s) = take 32 s"
proof -
  have "take 32 s = take 8 s @ take 24 (drop 8 s)"
    using take_add [of 8 24 s] by simp
  also have "take 24 (drop 8 s) = take 8 (drop 8 s) @ take 16 (drop 16 s)"
    using take_add [of 8 16 "drop 8 s"] by simp
  also have "take 16 (drop 16 s) = take 8 (drop 16 s) @ take 8 (drop 24 s)"
    using take_add [of 8 8 "drop 16 s"] by simp
  finally show ?thesis by simp
qed

lemma spec_pixel_to_binary:
  assumes "is_bits s" and "32 \<le> length s"
  shows "(case spec_pixel_at s 0 of (r, g, b, a) \<Rightarrow>
           format_08b r @ format_08b g @ format_08b b @ format_08b a) = take 32 s"
proof -
  have "format_08b (bin_value (take 8 (drop k s))) = take 8 (drop k s)" if "k + 8 \<le> length s" for k
    using that assms by (intro format_08b_bin_value) (simp_all add: is_bits_take is_bits_drop)
  from this [of 0] this [of 8] this [of 16] this [of 24] assms show ?thesis
    by (simp add: spec_pixel_at_def octets_of_chunk)
qed

lemma rgba_pixels_to_binary_Cons:
  "rgba_pixels_to_binary (p # ps) =
     (case p of (r, g, b, a) \<Rightarrow> format_08b r @ format_08b g @ format_08b b @ format_08b a)
     @ rgba_pixels_to_binary ps"
  by (simp add: rgba_pixels_to_binary_def split: prod.splits)

lemma rgba_pixels_to_binary_append:
  "rgba_pixels_to_binary (ps @ qs) = rgba_pixels_to_binary ps @ rgba_pixels_to_binary qs"
  by (simp add: rgba_pixels_to_binary_def)

lemma unpack_spec_pixels:
  "is_bits s \<Longrightarrow> length s = 32 * n \<Longrightarrow>
   rgba_pixels_to_binary (map (spec_pixel_at s) [0..<n]) = s"
proof (induction n arbitrary: s)
  case 0
  then show ?case by (simp add: rgba_pixels_to_binary_def)
next
  case (Suc n)
  from Suc.prems have len: "32 \<le> length s" by simp
  from Suc.prems have "rgba_pixels_to_binary (map (spec_pixel_at (drop 32 s)) [0..<n]) = drop 32 s"
    by (intro Suc.IH) (simp_all add: is_bits_drop)
  with spec_pixel_to_binary [OF Suc.prems(1) len] show ?case
    by (simp only: map_spec_pixel_at_Suc rgba_pixels_to_binary_Cons append_take_drop_id)
qed

lemma format_08b_zero: "format_08b 0 = replicate 8 (CHR ''0'')"
proof -
  have "bin_digits 0 = [CHR ''0'']" by (subst bin_digits.simps) (simp add: bit_char_def)
  then show ?thesis by (simp add: format_08b_def eval_nat_numeral)
qed

lemma unpack_zero_pixels:
  "rgba_pixels_to_binary (replicate k zero_pixel) = replicate (32 * k) (CHR ''0'')"
proof (induction k)
  case 0
  then show ?case by (simp add: rgba_pixels_to_binary_def)
next
  case (Suc k)
  have "rgba_pixels_to_binary (replicate (Suc k) zero_pixel) =
        replicate 32 (CHR ''0'') @ rgba_pixels_to_binary (replicate k zero_pixel)"
    by (simp add: rgba_pixels_to_binary_Cons zero_pixel_def format_08b_zero
          flip: replicate_add)
  with Suc show ?case by (simp flip: replicate_add)
qed

lemma pad_arith: "n + (32 - n mod 32) mod 32 = 32 * ((n + 31) div 32)" for n :: nat
proof -
  define q r where "q = n div 32" and "r = n mod 32"
  have n: "n = 32 * q + r" and r: "r < 32" by (simp_all add: q_def r_def)
  show ?thesis
  proof (cases "r = 0")
    case True
    with n show ?thesis by simp
  next
    case False
    with r have "(r + 31) div 32 = 1" by (intro div_nat_eqI) simp_all
    then have "(n + 31) div 32 = q + 1"
      unfolding n by (simp add: add.assoc)
    moreover from False r have "(32 - n mod 32) mod 32 = 32 - r"
      unfolding n by simp
    ultimately show ?thesis using r n by simp
  qed
qed

lemma padded_length: "length (padded s) = 32 * ((length s + 31) div 32)"
  by (simp add: padded_def padding_length_def pad_arith)

lemma is_bits_padded: "is_bits s \<Longrightarrow> is_bits (padded s)"
  by (simp add: padded_def)

lemma pack_bits:
  assumes "is_bits s"
  shows "binary_to_rgba_pixels s =
           Inr (map (spec_pixel_at (padded s)) [0..<(length s + 31) div 32], padding_length s)"
  using chunk_pixels_bits [OF is_bits_padded [OF assms] padded_length]
  by (simp add: binary_to_rgba_pixels_def)


lemma bin_value_octet_lt: "bin_value (take 8 s) < 256"
proof -
  have "bin_value (take 8 s) < 2 ^ length (take 8 s)" by (rule bin_value_lt)
  also have "(2::nat) ^ length (take 8 s) \<le> 2 ^ 8" by (rule power_increasing) simp_all
  finally show ?thesis by simp
qed

lemma spec_pixel_at_range:
  "(case spec_pixel_at s i of (r, g, b, a) \<Rightarrow> r < 256 \<and> g < 256 \<and> b < 256 \<and> a < 256)"
  by (simp add: spec_pixel_at_def bin_value_octet_lt)

text \<open>
  C5. For a bit string, every 32-bit chunk of the padded string becomes exactly one
  pixel: the pixel number \<open>i\<close> has R equal to the value of the bits \<open>[0:8)\<close> of chunk
  \<open>i\<close>, G of \<open>[8:16)\<close>, B of \<open>[16:24)\<close> and A of \<open>[24:32)\<close>, and every channel lies
  in 0..255.
\<close>

theorem chunk_to_pixel:
  "is_bits bits \<Longrightarrow>
   \<exists>pixels. binary_to_rgba_pixels bits = Inr (pixels, padding_length bits) \<and>
     32 * length pixels = length (padded bits) \<and>
     (\<forall>i<length pixels. pixels ! i = spec_pixel_at (padded bits) i \<and>
        (case pixels ! i of (r, g, b, a) \<Rightarrow> r < 256 \<and> g < 256 \<and> b < 256 \<and> a < 256))"
proof -
  assume bits: "is_bits bits"
  let ?n = "(length bits + 31) div 32"
  let ?pixels = "map (spec_pixel_at (padded bits)) [0..<?n]"
  have 1: "binary_to_rgba_pixels bits = Inr (?pixels, padding_length bits)"
    using bits by (rule pack_bits)
  have 2: "32 * length ?pixels = length (padded bits)" by (simp add: padded_length)
  have 3: "?pixels ! i = spec_pixel_at (padded bits) i \<and>
        (case ?pixels ! i of (r, g, b, a) \<Rightarrow> r < 256 \<and> g < 256 \<and> b < 256 \<and> a < 256)"
    if "i < length ?pixels" for i
    using that spec_pixel_at_range [of "padded bits" i] by simp
  from 1 2 3 show ?thesis by blast
qed

theorem chunk_to_pixel_witness:
  "is_bits ''1000000100000010000000111111111101'' \<and>
   (\<exists>pixels. binary_to_rgba_pixels ''1000000100000010000000111111111101'' =
        Inr (pixels, padding_length ''1000000100000010000000111111111101'') \<and>
     32 * length pixels = length (padded ''1000000100000010000000111111111101'') \<and>
     (\<forall>i<length pixels.
        pixels ! i = spec_pixel_at (padded ''1000000100000010000000111111111101'') i \<and>
        (case pixels ! i of (r, g, b, a) \<Rightarrow> r < 256 \<and> g < 256 \<and> b < 256 \<and> a < 256)))"
  using chunk_to_pixel [of "''1000000100000010000000111111111101''"] by simp

text \<open>
  C6. For a bit string \<open>b\<close>, unpacking the pixels produced by packing \<open>b\<close> gives back
  \<open>b\<close> followed by its zero padding, and nothing else.
\<close>

theorem unpack_pack:
  "is_bits b \<Longrightarrow>
   \<exists>pixels. binary_to_rgba_pixels b = Inr (pixels, padding_length b) \<and>
     rgba_pixels_to_binary pixels = b @ replicate (padding_length b) (CHR ''0'')"
proof -
  assume bits: "is_bits b"
  let ?pixels = "map (spec_pixel_at (padded b)) [0..<(length b + 31) div 32]"
  have "binary_to_rgba_pixels b = Inr (?pixels, padding_length b)"
    using bits by (rule pack_bits)
  moreover have "rgba_pixels_to_binary ?pixels = padded b"
    using is_bits_padded [OF bits] padded_length by (rule unpack_spec_pixels)
  ultimately show ?thesis by (simp add: padded_def)
qed

theorem unpack_pack_witness:
  "is_bits ''101'' \<and>
   (\<exists>pixels. binary_to_rgba_pixels ''101'' = Inr (pixels, padding_length ''101'') \<and>
     rgba_pixels_to_binary pixels = ''101'' @ replicate (padding_length ''101'') (CHR ''0''))"
  using unpack_pack [of "''101''"] by simp

section \<open>Bits to bytes (line 193)\<close>

lemma group8_Nil [simp]: "group8 [] = []"
  by (simp add: group8.simps)

lemma group8_octet: "length s = 8 \<Longrightarrow> group8 (s @ t) = of_nat (bin_value s) # group8 t"
  by (subst group8.simps) auto

lemma group8_append: "length s = 8 * m \<Longrightarrow> group8 (s @ t) = group8 s @ group8 t"
proof (induction m arbitrary: s)
  case 0
  then show ?case by simp
next
  case (Suc m)
  let ?h = "take 8 s" and ?r = "drop 8 s"
  from Suc.prems have h: "length ?h = 8" and r: "length ?r = 8 * m" by simp_all
  have "group8 (s @ t) = group8 (?h @ (?r @ t))" by (simp flip: append_assoc)
  also have "\<dots> = of_nat (bin_value ?h) # group8 (?r @ t)" using h by (rule group8_octet)
  finally have whole: "group8 (s @ t) = of_nat (bin_value ?h) # group8 (?r @ t)" .
  have front: "group8 s = of_nat (bin_value ?h) # group8 ?r"
    using group8_octet [OF h, of ?r] by simp
  show ?case by (simp add: whole front Suc.IH [OF r])
qed

lemma be_bytes_group8: "length s = 8 * m \<Longrightarrow> be_bytes m (bin_value s) = group8 s"
proof (induction m arbitrary: s)
  case 0
  then show ?case by simp
next
  case (Suc m)
  let ?h = "take (8 * m) s" and ?l = "drop (8 * m) s"
  from Suc.prems have h: "length ?h = 8 * m" and l: "length ?l = 8" by simp_all
  have low: "bin_value ?l < 256" using bin_value_lt [of ?l] l by simp
  have "bin_value s = bin_value (?h @ ?l)" by simp
  also have "\<dots> = bin_value ?h * 256 + bin_value ?l"
    by (simp only: bin_value_append l) simp
  finally have v: "bin_value s = bin_value ?h * 256 + bin_value ?l" .
  have d: "bin_value s div 256 = bin_value ?h" and m: "bin_value s mod 256 = bin_value ?l"
    using low by (simp_all add: v)
  have "be_bytes (Suc m) (bin_value s) = be_bytes m (bin_value ?h) @ [of_nat (bin_value ?l)]"
    by (simp add: d m)
  also have "be_bytes m (bin_value ?h) = group8 ?h" using h by (rule Suc.IH)
  also have "[of_nat (bin_value ?l)] = group8 ?l"
    using group8_octet [OF l, of "[]"] by simp
  also have "group8 ?h @ group8 ?l = group8 (?h @ ?l)"
    using h by (rule group8_append [symmetric])
  finally show ?case by simp
qed

lemma length_to_binary: "length (to_binary bs) = 8 * length bs"
proof (induction bs)
  case Nil
  then show ?case by (simp add: to_binary_def)
next
  case (Cons b bs)
  have "unat b < 256" using unsigned_less [of b] by simp
  then have "length (format_08b (unat b)) = 8" by (rule length_format_08b)
  with Cons show ?case by (simp add: to_binary_def)
qed

lemma is_bits_to_binary: "is_bits (to_binary bs)"
  by (induction bs) (simp_all add: to_binary_def)

lemma group8_to_binary: "group8 (to_binary bs @ t) = bs @ group8 t"
proof (induction bs)
  case Nil
  then show ?case by (simp add: to_binary_def)
next
  case (Cons b bs)
  have "unat b < 256" using unsigned_less [of b] by simp
  then have len: "length (format_08b (unat b)) = 8" by (rule length_format_08b)
  have "to_binary (b # bs) @ t = format_08b (unat b) @ (to_binary bs @ t)"
    by (simp add: to_binary_def)
  then have "group8 (to_binary (b # bs) @ t) =
      of_nat (bin_value (format_08b (unat b))) # group8 (to_binary bs @ t)"
    using group8_octet [OF len] by simp
  with Cons show ?case by simp
qed

lemma group8_zeros: "group8 (replicate (8 * k) (CHR ''0'')) = replicate k 0"
proof (induction k)
  case 0
  then show ?case by simp
next
  case (Suc k)
  have "replicate (8 * Suc k) (CHR ''0'') = replicate 8 (CHR ''0'') @ replicate (8 * k) (CHR ''0'')"
    by (simp flip: replicate_add)
  then have "group8 (replicate (8 * Suc k) (CHR ''0'')) =
      of_nat (bin_value (replicate 8 (CHR ''0''))) # group8 (replicate (8 * k) (CHR ''0''))"
    using group8_octet [of "replicate 8 (CHR ''0'')"] by simp
  with Suc show ?case by simp
qed

lemma pad_arith8: "(8 - n mod 8) mod 8 + n = 8 * ((n + 7) div 8)" for n :: nat
proof -
  define q r where "q = n div 8" and "r = n mod 8"
  have n: "n = 8 * q + r" and r: "r < 8" by (simp_all add: q_def r_def)
  show ?thesis
  proof (cases "r = 0")
    case True
    with n show ?thesis by simp
  next
    case False
    with r have "(r + 7) div 8 = 1" by (intro div_nat_eqI) simp_all
    then have "(n + 7) div 8 = q + 1"
      unfolding n by (simp add: add.assoc)
    moreover from False r have "(8 - n mod 8) mod 8 = 8 - r"
      unfolding n by simp
    ultimately show ?thesis using r n by simp
  qed
qed

lemma binary_to_bytes_bits:
  assumes "is_bits s" and "s \<noteq> []"
  shows "binary_to_bytes s =
           Inr (group8 (replicate ((8 - length s mod 8) mod 8) (CHR ''0'') @ s))"
proof -
  let ?m = "(length s + 7) div 8"
  let ?z = "replicate ((8 - length s mod 8) mod 8) (CHR ''0'')"
  have len: "length (?z @ s) = 8 * ?m" by (simp add: pad_arith8)
  then have "length s \<le> 8 * ?m" by simp
  then have "(2::nat) ^ length s \<le> 2 ^ (8 * ?m)" by (rule power_increasing) simp
  also have "(2::nat) ^ (8 * ?m) = 256 ^ ?m" by (simp add: power_mult)
  finally have fits: "bin_value s < 256 ^ ?m" using bin_value_lt [of s] by simp
  have "be_bytes ?m (bin_value (?z @ s)) = group8 (?z @ s)" using len by (rule be_bytes_group8)
  then have "be_bytes ?m (bin_value s) = group8 (?z @ s)" by simp
  with assms fits show ?thesis
    by (simp add: binary_to_bytes_def int_base2_def to_bytes_big_def)
qed

lemma binary_to_bytes_octets:
  assumes "is_bits s" and "s \<noteq> []" and "length s mod 8 = 0"
  shows "binary_to_bytes s = Inr (group8 s)"
  using binary_to_bytes_bits [OF assms(1,2)] assms(3) by simp

lemma decode_bits:
  assumes "0 < length bs + j"
  shows "binary_to_bytes (to_binary bs @ replicate (8 * j) (CHR ''0'')) = Inr (bs @ replicate j 0)"
proof -
  let ?s = "to_binary bs @ replicate (8 * j) (CHR ''0'')"
  have len: "length ?s = 8 * (length bs + j)" by (simp add: length_to_binary)
  with assms have ne: "?s \<noteq> []" by (metis length_0_conv mult_is_0 not_less_zero zero_neq_numeral)
  have bits: "is_bits ?s" by (simp add: is_bits_to_binary)
  have "length ?s mod 8 = 0" by (simp only: len) simp
  with bits ne have "binary_to_bytes ?s = Inr (group8 ?s)" by (rule binary_to_bytes_octets)
  then show ?thesis by (simp add: group8_to_binary group8_zeros)
qed







section \<open>The padding of a byte payload (lines 31--32 after line 148)\<close>

lemma padding_length_zero_iff: "(padding_length s = 0) = (length s mod 32 = 0)"
proof -
  have "length s mod 32 < 32" by simp
  then show ?thesis unfolding padding_length_def by (cases "length s mod 32 = 0") simp_all
qed

lemma padding_length_to_binary:
  "padding_length (to_binary b) = (32 - (8 * length b) mod 32) mod 32"
  by (simp add: padding_length_def length_to_binary)

text \<open>
  C4. For a byte sequence \<open>b\<close>, rendered as a bit string of length \<open>8 * len b\<close>, the
  packer appends exactly \<open>(32 - (8 * len b) mod 32) mod 32\<close> zero bits (it returns that
  number, and unpacking its pixels shows these bits); the padded length is a multiple of
  32, one pixel per 32 bits; and the payload is left unchanged exactly when its bit
  length is already a multiple of 32.
\<close>

theorem padding_correct:
  "\<exists>pixels.
     binary_to_rgba_pixels (to_binary b) = Inr (pixels, (32 - (8 * length b) mod 32) mod 32) \<and>
     length (to_binary b) = 8 * length b \<and>
     padded (to_binary b) =
       to_binary b @ replicate ((32 - (8 * length b) mod 32) mod 32) (CHR ''0'') \<and>
     rgba_pixels_to_binary pixels = padded (to_binary b) \<and>
     32 * length pixels = length (padded (to_binary b)) \<and>
     length (padded (to_binary b)) mod 32 = 0 \<and>
     ((8 * length b) mod 32 = 0) = (padded (to_binary b) = to_binary b)"
proof -
  let ?s = "to_binary b"
  let ?n = "(length ?s + 31) div 32"
  let ?pixels = "map (spec_pixel_at (padded ?s)) [0..<?n]"
  have bits: "is_bits ?s" by (rule is_bits_to_binary)
  have "binary_to_rgba_pixels ?s = Inr (?pixels, padding_length ?s)"
    using bits by (rule pack_bits)
  then have 1: "binary_to_rgba_pixels ?s = Inr (?pixels, (32 - (8 * length b) mod 32) mod 32)"
    by (simp only: padding_length_to_binary)
  have 2: "length ?s = 8 * length b" by (rule length_to_binary)
  have 3: "padded ?s = ?s @ replicate ((32 - (8 * length b) mod 32) mod 32) (CHR ''0'')"
    by (simp only: padded_def padding_length_to_binary)
  have 4: "rgba_pixels_to_binary ?pixels = padded ?s"
    using is_bits_padded [OF bits] padded_length by (rule unpack_spec_pixels)
  have 5: "32 * length ?pixels = length (padded ?s)" by (simp add: padded_length)
  have 6: "length (padded ?s) mod 32 = 0" by (simp add: padded_length)
  have "(padded ?s = ?s) = (padding_length ?s = 0)" by (simp add: padded_def)
  then have 7: "((8 * length b) mod 32 = 0) = (padded ?s = ?s)"
    by (simp add: padding_length_zero_iff length_to_binary)
  show ?thesis by (intro exI [of _ ?pixels] conjI) (fact 1 2 3 4 5 6 7)+
qed

section \<open>The layout (lines 151--152)\<close>

lemma isqrt_bounds: "isqrt n * isqrt n \<le> n \<and> n < (isqrt n + 1) * (isqrt n + 1)"
proof (induction n rule: isqrt.induct)
  case (1 n)
  show ?case
  proof (cases "n = 0")
    case True
    then show ?thesis by (simp add: isqrt.simps)
  next
    case False
    define q where "q = isqrt (n div 4)"
    from 1 False have lo: "q * q \<le> n div 4" and hi: "n div 4 < (q + 1) * (q + 1)"
      by (simp_all add: q_def)
    have even_sq: "(2 * q) * (2 * q) = 4 * (q * q)" by simp
    have next_sq: "(2 * q + 2) * (2 * q + 2) = 4 * ((q + 1) * (q + 1))" by (simp add: algebra_simps)
    from lo have below: "(2 * q) * (2 * q) \<le> n" unfolding even_sq by linarith
    from hi have "n div 4 + 1 \<le> (q + 1) * (q + 1)" by simp
    then have "4 * (n div 4) + 4 \<le> 4 * ((q + 1) * (q + 1))" by simp
    then have above: "n < (2 * q + 2) * (2 * q + 2)" unfolding next_sq by linarith
    show ?thesis
    proof (cases "(2 * q + 1) * (2 * q + 1) \<le> n")
      case True
      with False have "isqrt n = 2 * q + 1" by (subst isqrt.simps) (simp add: q_def isqrt_step_def)
      moreover have "(2 * q + 1 + 1) * (2 * q + 1 + 1) = (2 * q + 2) * (2 * q + 2)" by simp
      ultimately show ?thesis using True above by simp
    next
      case odd: False
      with False have "isqrt n = 2 * q" by (subst isqrt.simps) (simp add: q_def isqrt_step_def)
      with below odd show ?thesis by simp
    qed
  qed
qed

lemma isqrt_sq_le: "isqrt n * isqrt n \<le> n"
  using isqrt_bounds by blast

lemma isqrt_sq_gt: "n < (isqrt n + 1) * (isqrt n + 1)"
  using isqrt_bounds by blast

lemma isqrt_floor: "isqrt n = nat \<lfloor>sqrt (real n)\<rfloor>"
proof -
  let ?r = "isqrt n"
  have sq: "(real k)\<^sup>2 = real (k * k)" for k by (simp add: power2_eq_square)
  have "?r * ?r \<le> n" by (rule isqrt_sq_le)
  then have "real (?r * ?r) \<le> real n" by (simp only: of_nat_le_iff)
  then have "(real ?r)\<^sup>2 \<le> real n" by (simp only: sq)
  then have lo: "real ?r \<le> sqrt (real n)" by (rule real_le_rsqrt)
  have "n < (?r + 1) * (?r + 1)" by (rule isqrt_sq_gt)
  then have "real n < real ((?r + 1) * (?r + 1))" by (rule less_imp_of_nat_less)
  then have "real n < (real (?r + 1))\<^sup>2" by (simp only: sq)
  then have "sqrt (real n) < real (?r + 1)" by (intro real_less_lsqrt) simp_all
  then have hi: "sqrt (real n) < real ?r + 1" by simp
  have "\<lfloor>sqrt (real n)\<rfloor> = int ?r" using lo hi by (intro floor_unique) simp_all
  then show ?thesis by simp
qed

lemma int_pow_half_lower: "isqrt n \<le> int_pow_half rounds_up n"
  by (simp add: int_pow_half_def)

lemma int_pow_half_upper: "int_pow_half rounds_up n \<le> isqrt n + 1"
  by (simp add: int_pow_half_def)

lemma int_pow_half_exact: "n < 2 ^ 52 \<Longrightarrow> int_pow_half rounds_up n = isqrt n"
  by (simp add: int_pow_half_def)

lemma int_pow_half_sq_gt:
  "n < (int_pow_half rounds_up n + 1) * (int_pow_half rounds_up n + 1)"
proof -
  have "isqrt n + 1 \<le> int_pow_half rounds_up n + 1" by (simp add: int_pow_half_lower)
  then have "(isqrt n + 1) * (isqrt n + 1) \<le>
      (int_pow_half rounds_up n + 1) * (int_pow_half rounds_up n + 1)"
    by (intro mult_le_mono)
  with isqrt_sq_gt [of n] show ?thesis by linarith
qed

lemma pixel_count_ceiling: "(n + 31) div 32 = nat \<lceil>real n / 32\<rceil>"
  by linarith

text \<open>
  C3, as the specification states it, fails where the double-precision power rounds
  up: at a bit length of 144115192370823168 the pixel count is
  \<open>4503599761588224 = (2 ^ 26 + 1) ^ 2 - 1\<close>, the power of CPython is 67108865.0, and
  the width is 67108866, which is \<open>floor (sqrt pixel_count) + 2\<close>.
\<close>

theorem layout_rounding_counterexample:
  "layout (\<lambda>pixel_count. pixel_count = 4503599761588224) 144115192370823168 =
     (4503599761588224, 67108866, 67108866) \<and>
   nat \<lfloor>sqrt (real (4503599761588224 :: nat))\<rfloor> + 1 = 67108865"
proof -
  have root: "isqrt 4503599761588224 = 67108864" by (simp add: isqrt.simps isqrt_step_def)
  have "layout (\<lambda>pixel_count. pixel_count = 4503599761588224) 144115192370823168 =
     (4503599761588224, 67108866, 67108866)"
    by (simp add: layout_def int_pow_half_def root)
  moreover have "nat \<lfloor>sqrt (real (4503599761588224 :: nat))\<rfloor> + 1 = 67108865"
    by (simp only: isqrt_floor [symmetric] root)
  ultimately show ?thesis by blast
qed

text \<open>
  C3, amended. For every payload bit length \<open>n\<close> and every rounding of the power,
  the layout has \<open>pixel_count = ceil (n / 32)\<close>, a width equal to the height, at least
  \<open>pixel_count\<close> cells, and a width that is \<open>floor (sqrt pixel_count) + 1\<close> or one more
  than that; the width is exactly \<open>floor (sqrt pixel_count) + 1\<close> for every pixel count
  below \<open>2 ^ 52\<close>.
\<close>

theorem layout_square_bound:
  "(case layout rounds_up n of (pixel_count, width, height) \<Rightarrow>
      pixel_count = nat \<lceil>real n / 32\<rceil> \<and> width = height \<and>
      pixel_count \<le> width * height \<and>
      nat \<lfloor>sqrt (real pixel_count)\<rfloor> + 1 \<le> width \<and>
      width \<le> nat \<lfloor>sqrt (real pixel_count)\<rfloor> + 2 \<and>
      (pixel_count < 2 ^ 52 \<longrightarrow> width = nat \<lfloor>sqrt (real pixel_count)\<rfloor> + 1))"
proof -
  let ?pc = "(n + 31) div 32"
  let ?w = "int_pow_half rounds_up ?pc + 1"
  have 1: "?pc = nat \<lceil>real n / 32\<rceil>" by (rule pixel_count_ceiling)
  have 2: "?pc \<le> ?w * ?w" using int_pow_half_sq_gt [of ?pc rounds_up] by simp
  have 3: "isqrt ?pc + 1 \<le> ?w" by (simp add: int_pow_half_lower)
  have 4: "?w \<le> isqrt ?pc + 2" using int_pow_half_upper [of rounds_up ?pc] by simp
  have 5: "?pc < 2 ^ 52 \<longrightarrow> ?w = isqrt ?pc + 1" by (simp add: int_pow_half_exact)
  have "layout rounds_up n = (?pc, ?w, ?w)" by (simp add: layout_def Let_def)
  with 1 2 3 4 5 show ?thesis
    by (simp only: prod.case isqrt_floor [symmetric] pixel_count_ceiling [symmetric])
qed

theorem layout_square_bound_witness:
  "fst (layout (\<lambda>pixel_count. True) 128) < 2 ^ 52 \<and>
   layout (\<lambda>pixel_count. True) 128 = (4, 3, 3) \<and>
   nat \<lfloor>sqrt (real (4 :: nat))\<rfloor> + 1 = 3"
proof -
  have e: "layout (\<lambda>pixel_count. True) 128 = (4, 3, 3)"
    by (simp add: layout_def int_pow_half_def isqrt.simps isqrt_step_def)
  from layout_square_bound [where rounds_up = "\<lambda>pixel_count. True" and n = 128] e show ?thesis by simp
qed

section \<open>The no-benefit policy (lines 143--145)\<close>

text \<open>
  C7. When the compressor returns a result that is at least as long as the file, the
  conversion ends with the no-benefit outcome: it returns on line 145, before a bit
  string, a pixel or an image is built, so no image is saved.
\<close>

theorem no_benefit_abort:
  "compress_data file_data = Inr compressed_data \<Longrightarrow>
   length compressed_data \<ge> length file_data \<Longrightarrow>
   convert_file_to_image rounds_up compress_data file_data = NoBenefit \<and>
   (\<forall>img. convert_file_to_image rounds_up compress_data file_data \<noteq> ImageSaved img)"
  by (simp add: convert_file_to_image_def)

theorem no_benefit_abort_witness:
  "run_compress [65] = Inr [1, 65] \<and> length [1 :: byte, 65] \<ge> length [65 :: byte] \<and>
   convert_file_to_image (\<lambda>pixel_count. False) run_compress [65] = NoBenefit \<and>
   (\<forall>img. convert_file_to_image (\<lambda>pixel_count. False) run_compress [65] \<noteq> ImageSaved img)"
  using no_benefit_abort [where rounds_up = "\<lambda>pixel_count. False" and compress_data = run_compress
      and file_data = "[65]" and compressed_data = "[1, 65]"]
  by (simp add: run_compress_def)

text \<open>
  C10. For the empty file, whatever bytes the compressor returns, the conversion ends
  with the no-benefit outcome: the length of the result is at least 0, the length of the
  file, so the packing of lines 148--155 is never reached.
\<close>

theorem empty_file_abort:
  "compress_data [] = Inr compressed_data \<Longrightarrow>
   convert_file_to_image rounds_up compress_data [] = NoBenefit"
  by (simp add: convert_file_to_image_def)

theorem empty_file_abort_witness:
  "run_compress [] = Inr [0, 0] \<and> convert_file_to_image (\<lambda>pixel_count. False) run_compress [] = NoBenefit"
  using empty_file_abort [where rounds_up = "\<lambda>pixel_count. False" and compress_data = run_compress
      and compressed_data = "[0, 0]"]
  by (simp add: run_compress_def)

section \<open>The packed image (lines 148--155)\<close>

lemma layout_eq:
  "layout rounds_up n = ((n + 31) div 32, int_pow_half rounds_up ((n + 31) div 32) + 1, int_pow_half rounds_up ((n + 31) div 32) + 1)"
  by (simp add: layout_def Let_def)

lemma layout_room:
  "(n + 31) div 32 \<le> (int_pow_half rounds_up ((n + 31) div 32) + 1) * (int_pow_half rounds_up ((n + 31) div 32) + 1)"
  using int_pow_half_sq_gt [of "(n + 31) div 32" rounds_up] by simp

lemma layout_slack:
  "0 < (int_pow_half rounds_up ((n + 31) div 32) + 1) * (int_pow_half rounds_up ((n + 31) div 32) + 1) - (n + 31) div 32"
  using int_pow_half_sq_gt [of "(n + 31) div 32" rounds_up] by simp

lemma create_image_bits:
  assumes "is_bits s" and "(length s + 31) div 32 \<le> w * h"
  shows "create_image_from_binary s w h =
           Inr \<lparr>img_width = w, img_height = h,
                img_data = map (spec_pixel_at (padded s)) [0..<(length s + 31) div 32]
                           @ replicate (w * h - (length s + 31) div 32) zero_pixel\<rparr>"
  using assms by (simp add: create_image_from_binary_def pack_bits putdata_def Image_new_def)

lemma pack_empty: "binary_to_rgba_pixels [] = Inr ([], 0)"
  by (simp add: binary_to_rgba_pixels_def padded_def padding_length_def chunk_pixels.simps)

lemma int_pow_half_zero: "int_pow_half rounds_up 0 = 0"
  by (simp add: int_pow_half_def isqrt.simps)

text \<open>
  C9. Packing is total and is a function of the bytes alone: for every byte sequence
  the packer returns pixels, as many as the layout counts, and the image of the
  computed width and height is built, holding those pixels followed by
  \<open>(0, 0, 0, 0)\<close> cells; no branch of lines 148--155 raises. For the empty byte
  sequence the bit string is empty, the layout is 1 by 1 with a pixel count of 0, the
  pixel list is empty, and the single cell of the image keeps its default zero.
\<close>

theorem pack_total:
  "(case layout rounds_up (length (to_binary b)) of
      (pixel_count, width, height) \<Rightarrow>
        \<exists>pixels. binary_to_rgba_pixels (to_binary b) = Inr (pixels, padding_length (to_binary b)) \<and>
          length pixels = pixel_count \<and>
          create_image_from_binary (to_binary b) width height =
            Inr \<lparr>img_width = width, img_height = height,
                 img_data = pixels @ replicate (width * height - pixel_count) zero_pixel\<rparr>) \<and>
   to_binary [] = [] \<and>
   layout rounds_up (length (to_binary [])) = (0, 1, 1) \<and>
   binary_to_rgba_pixels (to_binary []) = Inr ([], 0) \<and>
   create_image_from_binary (to_binary []) 1 1 =
     Inr \<lparr>img_width = 1, img_height = 1, img_data = [zero_pixel]\<rparr>"
proof -
  let ?s = "to_binary b"
  let ?pc = "(length ?s + 31) div 32"
  let ?w = "int_pow_half rounds_up ?pc + 1"
  let ?pixels = "map (spec_pixel_at (padded ?s)) [0..<?pc]"
  have bits: "is_bits ?s" by (rule is_bits_to_binary)
  have 1: "binary_to_rgba_pixels ?s = Inr (?pixels, padding_length ?s)"
    using bits by (rule pack_bits)
  have 2: "length ?pixels = ?pc" by simp
  have 3: "create_image_from_binary ?s ?w ?w =
      Inr \<lparr>img_width = ?w, img_height = ?w,
           img_data = ?pixels @ replicate (?w * ?w - ?pc) zero_pixel\<rparr>"
    using bits layout_room by (rule create_image_bits)
  have general: "case layout rounds_up (length ?s) of
      (pixel_count, width, height) \<Rightarrow>
        \<exists>pixels. binary_to_rgba_pixels ?s = Inr (pixels, padding_length ?s) \<and>
          length pixels = pixel_count \<and>
          create_image_from_binary ?s width height =
            Inr \<lparr>img_width = width, img_height = height,
                 img_data = pixels @ replicate (width * height - pixel_count) zero_pixel\<rparr>"
    unfolding layout_eq prod.case
    by (intro exI [of _ ?pixels] conjI) (fact 1 2 3)+
  have e0: "to_binary [] = []" by (simp add: to_binary_def)
  have e1: "layout rounds_up (length (to_binary [])) = (0, 1, 1)"
    by (simp add: e0 layout_eq int_pow_half_zero)
  have e2: "binary_to_rgba_pixels (to_binary []) = Inr ([], 0)"
    by (simp add: e0 pack_empty)
  have e3: "create_image_from_binary (to_binary []) 1 1 =
     Inr \<lparr>img_width = 1, img_height = 1, img_data = [zero_pixel]\<rparr>"
    by (simp add: e0 create_image_from_binary_def pack_empty putdata_def Image_new_def)
  from general e0 e1 e2 e3 show ?thesis by (intro conjI)
qed

section \<open>Decoding an encoded image (lines 176--209 after lines 121--174)\<close>

text \<open>
  What the compression library does is taken from its contract: a frame produced by the
  compressor is self-delimiting, so the decompressor returns the same result when zero
  bytes follow the frame. The statements below assume this of the frame at hand and
  prove what the codec adds to it.
\<close>

lemma pad_octets:
  fixes l p q k :: nat
  assumes "8 * l + p = 32 * q"
  shows "p + 32 * k = 8 * (4 * q - l + 4 * k)"
proof -
  from assms have "l \<le> 4 * q" by linarith
  then obtain d where d: "4 * q = l + d" using le_Suc_ex by blast
  with assms have "p = 8 * d" by linarith
  with d show ?thesis by simp
qed

lemma decode_grid:
  assumes "0 < length c + k"
  shows "binary_to_bytes
           (rgba_pixels_to_binary
              (map (spec_pixel_at (padded (to_binary c))) [0..<(length (to_binary c) + 31) div 32]
               @ replicate k zero_pixel)) =
         Inr (c @ replicate (4 * ((length (to_binary c) + 31) div 32) - length c + 4 * k) 0)"
proof -
  let ?s = "to_binary c"
  let ?pc = "(length ?s + 31) div 32"
  let ?pad = "padding_length ?s"
  let ?j = "4 * ?pc - length c + 4 * k"
  have bits: "is_bits ?s" by (rule is_bits_to_binary)
  have "length (padded ?s) = 32 * ?pc" by (rule padded_length)
  then have "8 * length c + ?pad = 32 * ?pc" by (simp add: padded_def length_to_binary)
  then have pad: "?pad + 32 * k = 8 * ?j" by (rule pad_octets)
  from assms have j: "0 < length c + ?j" by linarith
  have "rgba_pixels_to_binary (map (spec_pixel_at (padded ?s)) [0..<?pc] @ replicate k zero_pixel)
      = padded ?s @ replicate (32 * k) (CHR ''0'')"
    using unpack_spec_pixels [OF is_bits_padded [OF bits] padded_length]
    by (simp add: rgba_pixels_to_binary_append unpack_zero_pixels)
  also have "\<dots> = ?s @ replicate (?pad + 32 * k) (CHR ''0'')"
    by (simp add: padded_def replicate_add)
  also have "\<dots> = ?s @ replicate (8 * ?j) (CHR ''0'')" by (simp only: pad)
  finally show ?thesis by (simp only: decode_bits [OF j])
qed

lemma encode_steps:
  assumes "compress_data b = Inr c" and "length c < length b"
    and "layout rounds_up (length (to_binary c)) = (pc, w, h)"
    and "create_image_from_binary (to_binary c) w h = Inr img"
  shows "convert_file_to_image rounds_up compress_data b = ImageSaved img"
  using assms by (simp add: convert_file_to_image_def)

lemma encode_image:
  assumes "compress_data b = Inr c" and "length c < length b"
  shows "convert_file_to_image rounds_up compress_data b =
     ImageSaved
       \<lparr>img_width = int_pow_half rounds_up ((length (to_binary c) + 31) div 32) + 1,
        img_height = int_pow_half rounds_up ((length (to_binary c) + 31) div 32) + 1,
        img_data =
          map (spec_pixel_at (padded (to_binary c))) [0..<(length (to_binary c) + 31) div 32]
          @ replicate ((int_pow_half rounds_up ((length (to_binary c) + 31) div 32) + 1) *
                       (int_pow_half rounds_up ((length (to_binary c) + 31) div 32) + 1)
                       - (length (to_binary c) + 31) div 32) zero_pixel\<rparr>"
  using assms layout_eq create_image_bits [OF is_bits_to_binary layout_room]
  by (rule encode_steps)

lemma decode_image:
  assumes "0 < length c + k"
    and "img_data img =
           map (spec_pixel_at (padded (to_binary c))) [0..<(length (to_binary c) + 31) div 32]
           @ replicate k zero_pixel"
  shows "convert_image_to_file decompress_data img =
           decompress_data
             (c @ replicate (4 * ((length (to_binary c) + 31) div 32) - length c + 4 * k) 0)"
  using decode_grid [OF assms(1)]
  by (simp add: convert_image_to_file_def create_binary_from_image_def assms(2))

lemma decode_image_frame:
  assumes "0 < length c + k"
    and "img_data img =
           map (spec_pixel_at (padded (to_binary c))) [0..<(length (to_binary c) + 31) div 32]
           @ replicate k zero_pixel"
    and "\<forall>j. decompress_data (c @ replicate j 0) = decompress_data c"
  shows "convert_image_to_file decompress_data img = decompress_data c"
  by (simp only: decode_image [OF assms(1,2)] assms(3))

text \<open>
  C1. When the compressor returns a result strictly shorter than the file (the file is
  then non-empty) and the decompressor restores the file from that result followed by
  any number of zero bytes, encoding saves an image and decoding that image returns
  exactly the file.
\<close>

theorem roundtrip:
  assumes "compress_data b = Inr c"
    and "length c < length b"
    and "\<forall>k. decompress_data (c @ replicate k 0) = Inr b"
  shows "\<exists>img. convert_file_to_image rounds_up compress_data b = ImageSaved img \<and>
               convert_image_to_file decompress_data img = Inr b"
proof -
  let ?pc = "(length (to_binary c) + 31) div 32"
  let ?w = "int_pow_half rounds_up ?pc + 1"
  let ?pixels = "map (spec_pixel_at (padded (to_binary c))) [0..<?pc]"
  let ?k = "?w * ?w - ?pc"
  let ?img = "\<lparr>img_width = ?w, img_height = ?w, img_data = ?pixels @ replicate ?k zero_pixel\<rparr>"
  have enc: "convert_file_to_image rounds_up compress_data b = ImageSaved ?img"
    using assms(1,2) by (rule encode_image)
  have "0 < ?k" by (rule layout_slack)
  then have "0 < length c + ?k" by simp
  then have "binary_to_bytes (rgba_pixels_to_binary (?pixels @ replicate ?k zero_pixel)) =
      Inr (c @ replicate (4 * ?pc - length c + 4 * ?k) 0)"
    by (rule decode_grid)
  then have "convert_image_to_file decompress_data ?img =
      decompress_data (c @ replicate (4 * ?pc - length c + 4 * ?k) 0)"
    by (simp add: convert_image_to_file_def create_binary_from_image_def)
  with assms(3) have dec: "convert_image_to_file decompress_data ?img = Inr b" by simp
  from enc dec show ?thesis by blast
qed

theorem roundtrip_witness:
  "run_compress [65, 65, 65] = Inr [3, 65] \<and>
   length [3 :: byte, 65] < length [65 :: byte, 65, 65] \<and>
   (\<forall>k. run_decompress ([3, 65] @ replicate k 0) = Inr [65, 65, 65]) \<and>
   (\<exists>img. convert_file_to_image (\<lambda>pixel_count. False) run_compress [65, 65, 65] = ImageSaved img \<and>
          convert_image_to_file run_decompress img = Inr [65, 65, 65])"
proof -
  have three: "replicate 3 x = [x, x, x]" for x :: byte by (simp add: numeral_3_eq_3)
  have c: "run_compress [65, 65, 65] = Inr [3, 65]" by (simp add: run_compress_def three)
  have l: "length [3 :: byte, 65] < length [65 :: byte, 65, 65]" by simp
  have d: "\<forall>k. run_decompress ([3, 65] @ replicate k 0) = Inr [65, 65, 65]"
    by (simp add: run_decompress_def three)
  from roundtrip [where rounds_up = "\<lambda>pixel_count. False" and compress_data = run_compress
      and b = "[65, 65, 65]" and c = "[3, 65]" and decompress_data = run_decompress] c l d
  show ?thesis by blast
qed


text \<open>
  C8. For an image \<open>G\<close> saved by the encoder from a non-empty compressed payload
  \<open>c\<close>: the first \<open>pixel_count\<close> cells of \<open>G\<close> are the pixels of the packer, and
  decoding \<open>G\<close> extended with any number of further zero pixels, under any width and
  height, gives the same result as decoding the image made of those \<open>pixel_count\<close>
  pixels alone, provided the decompressor ignores zero bytes after the frame \<open>c\<close>.
\<close>

theorem slack_tolerance:
  assumes "convert_file_to_image rounds_up compress_data b = ImageSaved G"
    and "compress_data b = Inr c"
    and "c \<noteq> []"
    and "\<forall>k. decompress_data (c @ replicate k 0) = decompress_data c"
  shows "\<exists>pixels.
           binary_to_rgba_pixels (to_binary c) = Inr (pixels, padding_length (to_binary c)) \<and>
           length pixels = fst (layout rounds_up (length (to_binary c))) \<and>
           take (length pixels) (img_data G) = pixels \<and>
           (\<forall>k w h.
              convert_image_to_file decompress_data
                \<lparr>img_width = w, img_height = h, img_data = img_data G @ replicate k zero_pixel\<rparr> =
              convert_image_to_file decompress_data
                \<lparr>img_width = length pixels, img_height = 1, img_data = pixels\<rparr>)"
proof -
  let ?pc = "(length (to_binary c) + 31) div 32"
  let ?w = "int_pow_half rounds_up ?pc + 1"
  let ?pixels = "map (spec_pixel_at (padded (to_binary c))) [0..<?pc]"
  let ?slack = "?w * ?w - ?pc"
  have shorter: "length c < length b"
  proof (rule ccontr)
    assume "\<not> length c < length b"
    with assms(2) have "convert_file_to_image rounds_up compress_data b = NoBenefit"
      by (simp add: convert_file_to_image_def)
    with assms(1) show False by simp
  qed
  from assms(2) shorter have "convert_file_to_image rounds_up compress_data b =
      ImageSaved \<lparr>img_width = ?w, img_height = ?w,
                  img_data = ?pixels @ replicate ?slack zero_pixel\<rparr>"
    by (rule encode_image)
  with assms(1) have G: "img_data G = ?pixels @ replicate ?slack zero_pixel" by auto
  from assms(3) have ne: "0 < length c + k" for k by simp
  have 1: "binary_to_rgba_pixels (to_binary c) = Inr (?pixels, padding_length (to_binary c))"
    using is_bits_to_binary by (rule pack_bits)
  have 2: "length ?pixels = fst (layout rounds_up (length (to_binary c)))" by (simp add: layout_eq)
  have 3: "take (length ?pixels) (img_data G) = ?pixels" by (simp add: G)
  have minimal: "convert_image_to_file decompress_data
        \<lparr>img_width = length ?pixels, img_height = 1, img_data = ?pixels\<rparr> = decompress_data c"
  proof (rule decode_image_frame [OF ne [of 0] _ assms(4)])
    show "img_data \<lparr>img_width = length ?pixels, img_height = 1, img_data = ?pixels\<rparr> =
        ?pixels @ replicate 0 zero_pixel"
      by simp
  qed
  have extended: "convert_image_to_file decompress_data
        \<lparr>img_width = w, img_height = h, img_data = img_data G @ replicate k zero_pixel\<rparr> =
      decompress_data c" for k w h
  proof (rule decode_image_frame [OF ne [of "?slack + k"] _ assms(4)])
    show "img_data \<lparr>img_width = w, img_height = h,
                    img_data = img_data G @ replicate k zero_pixel\<rparr> =
        ?pixels @ replicate (?slack + k) zero_pixel"
      by (simp only: image.select_convs G append_assoc replicate_add)
  qed
  have 4: "\<forall>k w h.
      convert_image_to_file decompress_data
        \<lparr>img_width = w, img_height = h, img_data = img_data G @ replicate k zero_pixel\<rparr> =
      convert_image_to_file decompress_data
        \<lparr>img_width = length ?pixels, img_height = 1, img_data = ?pixels\<rparr>"
    by (simp only: minimal extended) simp
  show ?thesis by (intro exI [of _ ?pixels] conjI) (fact 1 2 3 4)+
qed

theorem slack_tolerance_witness:
  "convert_file_to_image (\<lambda>pixel_count. False) run_compress [65, 65, 65] =
     ImageSaved \<lparr>img_width = 2, img_height = 2,
                 img_data = [(3, 65, 0, 0), (0, 0, 0, 0), (0, 0, 0, 0), (0, 0, 0, 0)]\<rparr> \<and>
   run_compress [65, 65, 65] = Inr [3, 65] \<and>
   [3 :: byte, 65] \<noteq> [] \<and>
   (\<forall>k. run_decompress ([3, 65] @ replicate k 0) = run_decompress [3, 65]) \<and>
   (\<exists>pixels.
      binary_to_rgba_pixels (to_binary [3, 65]) = Inr (pixels, padding_length (to_binary [3, 65])) \<and>
      length pixels = fst (layout (\<lambda>pixel_count. False) (length (to_binary [3, 65]))) \<and>
      take (length pixels)
        (img_data \<lparr>img_width = 2, img_height = 2,
                   img_data = [(3, 65, 0, 0), (0, 0, 0, 0), (0, 0, 0, 0), (0, 0, 0, 0)]\<rparr>) = pixels \<and>
      (\<forall>k w h.
         convert_image_to_file run_decompress
           \<lparr>img_width = w, img_height = h,
            img_data =
              img_data \<lparr>img_width = 2, img_height = 2,
                        img_data = [(3, 65, 0, 0), (0, 0, 0, 0), (0, 0, 0, 0), (0, 0, 0, 0)]\<rparr>
              @ replicate k zero_pixel\<rparr> =
         convert_image_to_file run_decompress
           \<lparr>img_width = length pixels, img_height = 1, img_data = pixels\<rparr>))"
proof -
  let ?G = "\<lparr>img_width = 2, img_height = 2,
            img_data = [(3, 65, 0, 0), (0, 0, 0, 0), (0, 0, 0, 0), (0, 0, 0, 0)]\<rparr>"
  have three: "replicate 3 x = [x, x, x]" for x :: byte by (simp add: numeral_3_eq_3)
  have c: "run_compress [65, 65, 65] = Inr [3, 65]" by (simp add: run_compress_def three)
  have l: "length [3 :: byte, 65] < length [65 :: byte, 65, 65]" by simp
  have bits: "to_binary [3, 65] = ''0000001101000001''" by code_simp
  have lay: "layout (\<lambda>pixel_count. False) (length (to_binary [3, 65])) = (1, 2, 2)"
    by (simp add: bits layout_def int_pow_half_def isqrt.simps isqrt_step_def)
  have img: "create_image_from_binary (to_binary [3, 65]) 2 2 = Inr ?G" by code_simp
  from c l lay img
  have e: "convert_file_to_image (\<lambda>pixel_count. False) run_compress [65, 65, 65] = ImageSaved ?G"
    by (rule encode_steps)
  have n: "[3 :: byte, 65] \<noteq> []" by simp
  have d: "\<forall>k. run_decompress ([3, 65] @ replicate k 0) = run_decompress [3, 65]"
    by (simp add: run_decompress_def)
  from slack_tolerance [where rounds_up = "\<lambda>pixel_count. False" and compress_data = run_compress
      and b = "[65, 65, 65]" and G = ?G and c = "[3, 65]" and decompress_data = run_decompress] e c n d
  show ?thesis by blast
qed

end
